theory Spec2Isabelle
  imports Complex_Main "HOL-Library.Sublist"
begin

unbundle bit_operations_syntax

section \<open>Python strings\<close>

text \<open>
  A Python \<open>str\<close> is a sequence of code points. The model takes the code points below
  256, one \<^typ>\<open>char\<close> each, so \<open>len\<close> is \<^const>\<open>length\<close>. The characters that
  \<open>str.split()\<close> and \<open>str.strip()\<close> (both called without arguments) treat as
  whitespace in that range are the ones \<open>str.isspace\<close> accepts: TAB, LF, VT, FF, CR,
  the separators 0x1C to 0x1F, the space, NEL (0x85) and the no-break space (0xA0).
\<close>

definition whitespace :: "char list" where
  "whitespace =
     [CHR 0x09, CHR 0x0A, CHR 0x0B, CHR 0x0C, CHR 0x0D,
      CHR 0x1C, CHR 0x1D, CHR 0x1E, CHR 0x1F, CHR 0x20, CHR 0x85, CHR 0xA0]"

definition isspace :: "char \<Rightarrow> bool" where
  "isspace c = (c \<in> set whitespace)"

text \<open>
  \<open>str.split()\<close>: skip a run of whitespace, cut the following run of other characters
  off as one token, go on with the rest. No token is empty.
\<close>

function split :: "string \<Rightarrow> string list" where
  "split s =
     (case dropWhile isspace s of
        [] \<Rightarrow> []
      | c # cs \<Rightarrow>
          takeWhile (\<lambda>x. \<not> isspace x) (c # cs) # split (dropWhile (\<lambda>x. \<not> isspace x) cs))"
  by pat_completeness auto
termination
proof (relation "measure length")
  show "wf (measure length)" by simp
next
  fix s :: string and c cs
  assume "dropWhile isspace s = c # cs"
  then have "length s \<ge> Suc (length cs)"
    by (metis length_Cons length_dropWhile_le)
  moreover have "length (dropWhile (\<lambda>x. \<not> isspace x) cs) \<le> length cs"
    by (rule length_dropWhile_le)
  ultimately show "(dropWhile (\<lambda>x. \<not> isspace x) cs, s) \<in> measure length"
    by simp
qed

declare split.simps [simp del]

text \<open>A token: not empty, no whitespace in it.\<close>

definition token :: "string \<Rightarrow> bool" where
  "token t = (t \<noteq> [] \<and> (\<forall>c\<in>set t. \<not> isspace c))"

text \<open>\<open>sep.join(xs)\<close>\<close>

fun join :: "string \<Rightarrow> string list \<Rightarrow> string" where
  "join sep [] = []"
| "join sep [x] = x"
| "join sep (x # y # ys) = x @ sep @ join sep (y # ys)"

text \<open>\<open>str.strip()\<close>: drop the whitespace at both ends.\<close>

definition strip :: "string \<Rightarrow> string" where
  "strip s = rev (dropWhile isspace (rev (dropWhile isspace s)))"

text \<open>
  \<open>str.lower()\<close> on the code points below 256: the letters A to Z and the capital
  letters of Latin-1 (0xC0 to 0xDE without the multiplication sign 0xD7) move up by 32,
  every other character stays.
\<close>

definition lower_char :: "char \<Rightarrow> char" where
  "lower_char c =
     (let n = (of_char c :: nat)
      in if (65 \<le> n \<and> n \<le> 90) \<or> (192 \<le> n \<and> n \<le> 222 \<and> n \<noteq> 215)
         then char_of (n + 32) else c)"

definition lower :: "string \<Rightarrow> string" where
  "lower s = map lower_char s"

section \<open>Text normalisation and similarity\<close>

text \<open>\<open>normalize_text\<close>: \<open>" ".join(text.split()).strip()\<close>\<close>

definition normalize_text :: "string \<Rightarrow> string" where
  "normalize_text text = strip (join '' '' (split text))"

text \<open>
  Python's \<open>float\<close> is modelled by \<^typ>\<open>real\<close>: comparison, subtraction and the
  quotient of two integers are the exact ones, rounding is not modelled. The only
  exception the arithmetic of this program could raise is the division by zero of
  \<open>/\<close>; it is a value of the model.
\<close>

datatype py_error = ZeroDivisionError

definition truediv :: "nat \<Rightarrow> nat \<Rightarrow> py_error + real" where
  "truediv m n = (if n = 0 then Inl ZeroDivisionError else Inr (real m / real n))"

text \<open>
  \<open>jaccard_similarity\<close>: the token sets of the two lower-cased strings, 1 for two empty
  sets, 0 for one empty set, else \<open>len(set_a & set_b) / len(set_a | set_b)\<close>.
\<close>

definition jaccard_similarity :: "string \<Rightarrow> string \<Rightarrow> py_error + real" where
  "jaccard_similarity a b =
     (let set_a = set (split (lower a));
          set_b = set (split (lower b))
      in if set_a = {} \<and> set_b = {} then Inr 1
         else if set_a = {} \<or> set_b = {} then Inr 0
         else truediv (card (set_a \<inter> set_b)) (card (set_a \<union> set_b)))"

section \<open>The speaker and its worker thread\<close>

text \<open>
  \<open>TextSpeaker\<close> owns a FIFO queue, a stop event and one worker thread. The queue and the
  event are thread-safe objects, so every operation on them is one atomic step, and an
  execution of the two threads is an interleaving of such steps. The worker is a small
  machine whose state is the point of \<open>_worker\<close> it has reached:
  \<^item> \<open>AtWhile\<close>: about to evaluate \<open>while not self._stop.is_set()\<close>;
  \<^item> \<open>AtGet\<close>: about to call \<open>self._q.get()\<close>, which blocks while the queue is empty;
  \<^item> \<open>AtStopCheck text\<close>: holding the dequeued \<open>text\<close>, about to evaluate
    \<open>if self._stop.is_set()\<close>;
  \<^item> \<open>AtSay text\<close>: about to call \<open>self._engine.say(text)\<close> and \<open>runAndWait()\<close>;
  \<^item> \<open>InRunAndWait text\<close>: the engine is speaking \<open>text\<close>;
  \<^item> \<open>Finished\<close>: \<open>_worker\<close> has returned.
  The engine is the log of what it did: the begin and the end of each utterance, oldest
  first. A call of the engine is assumed to return.
\<close>

datatype worker =
  NotStarted | AtWhile | AtGet | AtStopCheck string | AtSay string | InRunAndWait string
  | Finished

datatype speech = UtterBegin string | UtterEnd string

record TextSpeaker =
  sp_engine :: "speech list"
  sp_q :: "string list"
  sp_stop :: bool
  sp_thread :: worker

text \<open>\<open>TextSpeaker.__init__\<close>\<close>

definition TextSpeaker_init :: TextSpeaker where
  "TextSpeaker_init = \<lparr>sp_engine = [], sp_q = [], sp_stop = False, sp_thread = NotStarted\<rparr>"

text \<open>
  \<open>start\<close>: the thread starts at the head of \<open>_worker\<close>. Starting a thread twice raises
  in the caller and leaves the speaker as it is.
\<close>

definition start :: "TextSpeaker \<Rightarrow> TextSpeaker" where
  "start sp = (if sp_thread sp = NotStarted then sp\<lparr>sp_thread := AtWhile\<rparr> else sp)"

text \<open>\<open>say\<close>: \<open>if text.strip(): self._q.put(text)\<close>\<close>

definition say :: "TextSpeaker \<Rightarrow> string \<Rightarrow> TextSpeaker" where
  "say sp text = (if strip text \<noteq> [] then sp\<lparr>sp_q := sp_q sp @ [text]\<rparr> else sp)"

text \<open>
  \<open>close\<close> is two steps on the shared state, \<open>self._stop.set()\<close> and
  \<open>self._q.put("")\<close>; the worker may run between them. The bounded \<open>join\<close> that follows
  changes nothing.
\<close>

definition close_set :: "TextSpeaker \<Rightarrow> TextSpeaker" where
  "close_set sp = sp\<lparr>sp_stop := True\<rparr>"

definition close_put :: "TextSpeaker \<Rightarrow> TextSpeaker" where
  "close_put sp = sp\<lparr>sp_q := sp_q sp @ [[]]\<rparr>"

text \<open>One atomic step of \<open>_worker\<close>. A blocked \<open>get\<close> leaves the state as it is.\<close>

definition worker_step :: "TextSpeaker \<Rightarrow> TextSpeaker" where
  "worker_step sp =
     (case sp_thread sp of
        NotStarted \<Rightarrow> sp
      | AtWhile \<Rightarrow>
          if sp_stop sp then sp\<lparr>sp_thread := Finished\<rparr> else sp\<lparr>sp_thread := AtGet\<rparr>
      | AtGet \<Rightarrow>
          (case sp_q sp of
             [] \<Rightarrow> sp
           | text # rest \<Rightarrow> sp\<lparr>sp_q := rest, sp_thread := AtStopCheck text\<rparr>)
      | AtStopCheck text \<Rightarrow>
          if sp_stop sp then sp\<lparr>sp_thread := Finished\<rparr>
          else if strip text \<noteq> [] then sp\<lparr>sp_thread := AtSay text\<rparr>
          else sp\<lparr>sp_thread := AtWhile\<rparr>
      | AtSay text \<Rightarrow>
          sp\<lparr>sp_engine := sp_engine sp @ [UtterBegin text], sp_thread := InRunAndWait text\<rparr>
      | InRunAndWait text \<Rightarrow>
          sp\<lparr>sp_engine := sp_engine sp @ [UtterEnd text], sp_thread := AtWhile\<rparr>
      | Finished \<Rightarrow> sp)"

text \<open>
  A schedule is the order in which the steps of the two threads happen: the calls of the
  main thread and the steps of the worker.
\<close>

datatype action = Start | Say string | CloseSet | ClosePut | Worker

fun step :: "TextSpeaker \<Rightarrow> action \<Rightarrow> TextSpeaker" where
  "step sp Start = start sp"
| "step sp (Say text) = say sp text"
| "step sp CloseSet = close_set sp"
| "step sp ClosePut = close_put sp"
| "step sp Worker = worker_step sp"

definition exec :: "TextSpeaker \<Rightarrow> action list \<Rightarrow> TextSpeaker" where
  "exec sp sched = foldl step sp sched"

text \<open>The payloads a schedule puts into the queue through \<open>say\<close>, in the order of the calls.\<close>

fun enqueued :: "action list \<Rightarrow> string list" where
  "enqueued [] = []"
| "enqueued (Say text # sched) =
     (if strip text \<noteq> [] then text # enqueued sched else enqueued sched)"
| "enqueued (a # sched) = enqueued sched"

text \<open>The engine's log when it has spoken the payloads \<open>ts\<close>, each to its end, in this order.\<close>

definition utterances :: "string list \<Rightarrow> speech list" where
  "utterances ts = concat (map (\<lambda>t. [UtterBegin t, UtterEnd t]) ts)"

section \<open>The main loop\<close>

record AppConfig =
  camera_index :: int
  ocr_interval :: real
  min_text_length :: int
  similarity_threshold :: real

text \<open>The configuration \<open>parse_args\<close> returns when no flag is given.\<close>

definition default_config :: AppConfig where
  "default_config =
     \<lparr>camera_index = 0, ocr_interval = 1.2, min_text_length = 4, similarity_threshold = 0.8\<rparr>"

text \<open>The variables of \<open>main\<close> that live across iterations.\<close>

record main_state =
  last_text :: string
  last_ocr :: real
  speaker :: TextSpeaker

text \<open>
  What the outside world gives to one iteration: whether \<open>cap.read()\<close> succeeded, the
  value of \<open>time.time()\<close>, the string \<open>pytesseract.image_to_string\<close> returns for the
  frame, and the value of \<open>cv2.waitKey(1)\<close>. The last three are read only where the
  iteration reaches their calls.
\<close>

record tick =
  read_ok :: bool
  time_now :: real
  image_to_string :: string
  wait_key :: int

text \<open>What an iteration does to the outside world, in order.\<close>

datatype effect = Print string | Imshow | Ocr | WaitKey

datatype control = Next | Quit | Raised py_error

text \<open>\<open>extract_text\<close>, from the string the OCR engine returned.\<close>

definition extract_text :: "string \<Rightarrow> string" where
  "extract_text raw_text = normalize_text raw_text"

text \<open>The sampling gate, the condition \<open>now - last_ocr >= config.ocr_interval\<close>.\<close>

definition should_sample :: "real \<Rightarrow> real \<Rightarrow> real \<Rightarrow> bool" where
  "should_sample now last_sample interval = (now - last_sample \<ge> interval)"

text \<open>
  The two nested conditions that decide whether \<open>text\<close> is spoken:
  \<open>len(text) >= config.min_text_length\<close>, then
  \<open>jaccard_similarity(text, last_text) < config.similarity_threshold\<close>.
\<close>

definition dedup_accept :: "AppConfig \<Rightarrow> string \<Rightarrow> string \<Rightarrow> py_error + bool" where
  "dedup_accept config text prev =
     (if int (length text) \<ge> min_text_length config then
        (case jaccard_similarity text prev of
           Inl e \<Rightarrow> Inl e
         | Inr similarity \<Rightarrow> Inr (similarity < similarity_threshold config))
      else Inr False)"

text \<open>The body of \<open>if now - last_ocr >= config.ocr_interval\<close>.\<close>

definition sample ::
  "AppConfig \<Rightarrow> main_state \<Rightarrow> tick \<Rightarrow> main_state \<times> effect list \<times> py_error option" where
  "sample config st env =
     (let st1 = st\<lparr>last_ocr := time_now env\<rparr>;
          text = extract_text (image_to_string env)
      in case dedup_accept config text (last_text st1) of
           Inl e \<Rightarrow> (st1, [Ocr], Some e)
         | Inr False \<Rightarrow> (st1, [Ocr], None)
         | Inr True \<Rightarrow>
             (st1\<lparr>speaker := say (speaker st1) text, last_text := text\<rparr>,
              [Ocr, Print (''Detected: '' @ text)], None))"

text \<open>One iteration of \<open>while True\<close>. The quit key is \<open>ord("q")\<close>, 113.\<close>

definition main_iter ::
  "AppConfig \<Rightarrow> main_state \<Rightarrow> tick \<Rightarrow> main_state \<times> effect list \<times> control" where
  "main_iter config st env =
     (if \<not> read_ok env then
        (st, [Print ''Warning: failed to read frame from camera''], Next)
      else
        case (if should_sample (time_now env) (last_ocr st) (ocr_interval config)
              then sample config st env else (st, [], None)) of
          (st1, out, Some e) \<Rightarrow> (st1, Imshow # out, Raised e)
        | (st1, out, None) \<Rightarrow>
            (st1, Imshow # out @ [WaitKey],
             if wait_key env AND 255 = 113 then Quit else Next))"

text \<open>
  The loop over the iterations the outside world provides. It stops at the first
  iteration that breaks or raises; \<open>Next\<close> at the end says the loop is still running.
\<close>

fun main_loop ::
  "AppConfig \<Rightarrow> main_state \<Rightarrow> tick list \<Rightarrow> main_state \<times> effect list \<times> control" where
  "main_loop config st [] = (st, [], Next)"
| "main_loop config st (env # envs) =
     (case main_iter config st env of
        (st1, out, Next) \<Rightarrow>
          (case main_loop config st1 envs of (st2, out2, c) \<Rightarrow> (st2, out @ out2, c))
      | (st1, out, c) \<Rightarrow> (st1, out, c))"

text \<open>The state in which \<open>main\<close> enters the loop: a started speaker, no text, clock 0.0.\<close>

definition main_init :: main_state where
  "main_init = \<lparr>last_text = [], last_ocr = 0, speaker = start TextSpeaker_init\<rparr>"

section \<open>The history of the queue\<close>

text \<open>What one step of a schedule puts into the queue: \<open>say\<close> its payload, \<open>close\<close> the empty string.\<close>

fun put1 :: "action \<Rightarrow> string list" where
  "put1 (Say text) = (if strip text \<noteq> [] then [text] else [])"
| "put1 ClosePut = [[]]"
| "put1 a = []"

definition puts :: "action list \<Rightarrow> string list" where
  "puts sched = concat (map put1 sched)"

text \<open>What the engine has said when the worker is through the dequeued items \<open>c\<close>.\<close>

definition spoken :: "string list \<Rightarrow> speech list" where
  "spoken c = utterances (filter (\<lambda>t. strip t \<noteq> []) c)"

text \<open>
  The invariant of an execution, \<open>hist\<close> being everything put into the queue so far:
  the items the worker is through, the item it holds and the queue make up \<open>hist\<close>, and
  the engine's log is what the items it is through give. A finished worker is through
  some prefix of \<open>hist\<close>.
\<close>

definition worker_inv :: "string list \<Rightarrow> TextSpeaker \<Rightarrow> bool" where
  "worker_inv hist sp =
     (case sp_thread sp of
        Finished \<Rightarrow> (\<exists>c. prefix c hist \<and> sp_engine sp = spoken c)
      | InRunAndWait t \<Rightarrow>
          strip t \<noteq> [] \<and>
          (\<exists>c. hist = c @ t # sp_q sp \<and> sp_engine sp = spoken c @ [UtterBegin t])
      | AtSay t \<Rightarrow>
          strip t \<noteq> [] \<and> (\<exists>c. hist = c @ t # sp_q sp \<and> sp_engine sp = spoken c)
      | AtStopCheck t \<Rightarrow> (\<exists>c. hist = c @ t # sp_q sp \<and> sp_engine sp = spoken c)
      | _ \<Rightarrow> (\<exists>c. hist = c @ sp_q sp \<and> sp_engine sp = spoken c))"

text \<open>
  The worker is running when the stop flag is not set and the thread has started and
  not returned. \<open>steps_left\<close> bounds the steps a running worker takes until it waits at
  an empty queue: five for each queued item, and what is left of the item in hand.
\<close>

definition steps_left :: "TextSpeaker \<Rightarrow> nat" where
  "steps_left sp =
     5 * length (sp_q sp) +
     (case sp_thread sp of
        AtStopCheck t \<Rightarrow> 4 | AtSay t \<Rightarrow> 3 | InRunAndWait t \<Rightarrow> 2 | AtWhile \<Rightarrow> 1 | _ \<Rightarrow> 0)"

definition running :: "TextSpeaker \<Rightarrow> bool" where
  "running sp = (\<not> sp_stop sp \<and> sp_thread sp \<noteq> NotStarted \<and> sp_thread sp \<noteq> Finished)"

section \<open>Properties of the string functions\<close>


lemma isspace_space [simp]: "isspace CHR '' ''"
  by (simp add: isspace_def whitespace_def)

lemma dropWhile_all: "\<forall>x\<in>set xs. P x \<Longrightarrow> dropWhile P xs = []"
  by simp

lemma split_Nil [simp]: "split [] = []"
  by (simp add: split.simps)

lemma split_space_Cons: "isspace c \<Longrightarrow> split (c # s) = split s"
  by (simp add: split.simps [of "c # s"] split.simps [of s])

lemma split_char_Cons:
  "\<not> isspace c \<Longrightarrow>
     split (c # cs) =
       (c # takeWhile (\<lambda>x. \<not> isspace x) cs) # split (dropWhile (\<lambda>x. \<not> isspace x) cs)"
  by (simp add: split.simps [of "c # cs"])

lemma split_tokens:
  "t \<in> set (split s) \<Longrightarrow> t \<noteq> [] \<and> (\<forall>c\<in>set t. \<not> isspace c)"
proof (induction s arbitrary: t rule: split.induct)
  case (1 s)
  show ?case
  proof (cases "dropWhile isspace s")
    case Nil
    with "1.prems" show ?thesis by (simp add: split.simps [of s])
  next
    case (Cons c cs)
    then have c: "\<not> isspace c"
      by (metis hd_dropWhile list.distinct(1) list.sel(1))
    from "1.prems" Cons
    consider "t = takeWhile (\<lambda>x. \<not> isspace x) (c # cs)"
      | "t \<in> set (split (dropWhile (\<lambda>x. \<not> isspace x) cs))"
      by (auto simp: split.simps [of s])
    then show ?thesis
    proof cases
      case 1
      with c show ?thesis by (auto dest: set_takeWhileD)
    next
      case 2
      with "1.IH" [OF Cons] show ?thesis by blast
    qed
  qed
qed

lemma split_empty_iff: "split s = [] \<longleftrightarrow> (\<forall>c\<in>set s. isspace c)"
proof
  assume "split s = []"
  then have "dropWhile isspace s = []"
    by (simp add: split.simps [of s] split: list.splits)
  then show "\<forall>c\<in>set s. isspace c" by simp
next
  assume "\<forall>c\<in>set s. isspace c"
  then show "split s = []"
    by (simp add: split.simps [of s] dropWhile_all)
qed

lemma split_token_append:
  assumes "token t"
  shows "split (t @ CHR '' '' # r) = t # split r"
proof -
  from assms obtain c cs where t: "t = c # cs" and c: "\<not> isspace c"
    and cs: "\<forall>x\<in>set cs. \<not> isspace x"
    by (cases t) (auto simp: token_def)
  have "takeWhile (\<lambda>x. \<not> isspace x) (cs @ CHR '' '' # r) = cs"
    using cs by simp
  moreover have "dropWhile (\<lambda>x. \<not> isspace x) (cs @ CHR '' '' # r) = CHR '' '' # r"
    using cs by simp
  ultimately show ?thesis
    unfolding t by (simp add: split_char_Cons [OF c] split_space_Cons)
qed

lemma split_token:
  assumes "token t"
  shows "split t = [t]"
proof -
  from assms obtain c cs where t: "t = c # cs" and c: "\<not> isspace c"
    and cs: "\<forall>x\<in>set cs. \<not> isspace x"
    by (cases t) (auto simp: token_def)
  show ?thesis
    unfolding t using cs by (simp add: split_char_Cons [OF c] dropWhile_all)
qed

lemma split_join:
  "\<forall>t\<in>set ts. token t \<Longrightarrow> split (join '' '' ts) = ts"
proof (induction ts rule: induct_list012)
  case (3 x y zs)
  then show ?case by (simp add: split_token_append)
qed (simp_all add: split_token)

lemma join_ends:
  "\<forall>t\<in>set ts. token t \<Longrightarrow> ts \<noteq> [] \<Longrightarrow>
     \<not> isspace (hd (join '' '' ts)) \<and> \<not> isspace (last (join '' '' ts)) \<and> join '' '' ts \<noteq> []"
proof (induction ts rule: induct_list012)
  case (3 x y zs)
  then show ?case by (auto simp: token_def)
qed (auto simp: token_def)

lemma strip_clean:
  assumes "s \<noteq> []" "\<not> isspace (hd s)" "\<not> isspace (last s)"
  shows "strip s = s"
proof -
  have "dropWhile isspace s = s" using assms by (cases s) auto
  moreover have "dropWhile isspace (rev s) = rev s"
    using assms by (cases "rev s") (auto simp: last_rev hd_rev)
  ultimately show ?thesis by (simp add: strip_def)
qed

lemma strip_join:
  "\<forall>t\<in>set ts. token t \<Longrightarrow> strip (join '' '' ts) = join '' '' ts"
proof (cases "ts = []")
  case True
  then show ?thesis by (simp add: strip_def)
next
  case False
  assume "\<forall>t\<in>set ts. token t"
  from join_ends [OF this False] show ?thesis by (simp add: strip_clean)
qed

lemma token_split: "\<forall>t\<in>set (split s). token t"
  using split_tokens by (auto simp: token_def)

lemma normalize_text_join: "normalize_text s = join '' '' (split s)"
  unfolding normalize_text_def by (rule strip_join [OF token_split])

lemma split_normalize_text: "split (normalize_text s) = split s"
  unfolding normalize_text_join by (rule split_join [OF token_split])

lemma normalize_idem: "normalize_text (normalize_text s) = normalize_text s"
  using split_normalize_text [of s] normalize_text_join [of "normalize_text s"]
    normalize_text_join [of s] by simp









lemma normalize_text_empty_iff: "normalize_text s = [] \<longleftrightarrow> split s = []"
proof
  assume "normalize_text s = []"
  then have "split (normalize_text s) = []" by simp
  then show "split s = []" by (simp add: split_normalize_text)
next
  assume "split s = []"
  then show "normalize_text s = []" by (simp add: normalize_text_join)
qed

lemma truediv_ok: "n \<noteq> 0 \<Longrightarrow> truediv m n = Inr (real m / real n)"
  by (simp add: truediv_def)

lemma jaccard_similarity_value:
  "jaccard_similarity a b =
     Inr (let A = set (split (lower a)); B = set (split (lower b))
          in if A = {} \<and> B = {} then 1
             else if A = {} \<or> B = {} then 0
             else real (card (A \<inter> B)) / real (card (A \<union> B)))"
  by (simp add: jaccard_similarity_def Let_def truediv_def)

lemma jaccard_similarity_commute: "jaccard_similarity a b = jaccard_similarity b a"
  by (simp add: jaccard_similarity_def Let_def Int_commute Un_commute disj_commute conj_commute)

lemma card_ratio_bounds:
  assumes "finite A" "finite B"
  shows "0 \<le> real (card (A \<inter> B)) / real (card (A \<union> B))"
    and "real (card (A \<inter> B)) / real (card (A \<union> B)) \<le> 1"
proof -
  show "0 \<le> real (card (A \<inter> B)) / real (card (A \<union> B))" by simp
  have "card (A \<inter> B) \<le> card (A \<union> B)"
    using assms by (intro card_mono) auto
  then show "real (card (A \<inter> B)) / real (card (A \<union> B)) \<le> 1"
    by (cases "card (A \<union> B) = 0") (simp_all add: divide_le_eq_1)
qed



section \<open>Normalisation and similarity: the claims\<close>

text \<open>
  C7: \<open>normalize_text\<close> is idempotent, and an input that is empty or consists of
  whitespace only is normalised to the empty string.
\<close>

theorem normalize_text_idempotent:
  "normalize_text (normalize_text s) = normalize_text s \<and>
   ((\<forall>c\<in>set s. isspace c) \<longrightarrow> normalize_text s = [])"
  by (simp add: normalize_idem normalize_text_empty_iff split_empty_iff)

theorem normalize_text_idempotent_witness:
  "isspace CHR '' '' \<and> isspace CHR 0x09 \<and>
   normalize_text [CHR '' '', CHR 0x09] = [] \<and>
   normalize_text (normalize_text [CHR '' '', CHR 0x09]) = normalize_text [CHR '' '', CHR 0x09]"
proof -
  have sp: "isspace CHR '' ''" "isspace CHR 0x09"
    by (simp_all add: isspace_def whitespace_def)
  then have "\<forall>c\<in>set [CHR '' '', CHR 0x09]. isspace c" by simp
  with normalize_text_idempotent [of "[CHR '' '', CHR 0x09]"] sp show ?thesis by blast
qed

text \<open>
  C5: the similarity of two strings never raises, is symmetric, lies between 0 and 1,
  and is 1 when both token sets are empty, 0 when exactly one of them is empty, and
  the size of the intersection divided by the size of the union otherwise.
\<close>

theorem jaccard_similarity_spec:
  "\<exists>r. jaccard_similarity a b = Inr r \<and> jaccard_similarity b a = Inr r \<and> 0 \<le> r \<and> r \<le> 1 \<and>
     r = (let A = set (split (lower a)); B = set (split (lower b))
          in if A = {} \<and> B = {} then 1
             else if (A = {}) \<noteq> (B = {}) then 0
             else real (card (A \<inter> B)) / real (card (A \<union> B)))"
proof -
  define A where "A = set (split (lower a))"
  define B where "B = set (split (lower b))"
  define r where "r = (if A = {} \<and> B = {} then 1
             else if A = {} \<or> B = {} then 0
             else real (card (A \<inter> B)) / real (card (A \<union> B)))"
  have ab: "jaccard_similarity a b = Inr r"
    by (simp add: jaccard_similarity_value r_def A_def B_def Let_def)
  have ba: "jaccard_similarity b a = Inr r"
    using ab by (simp add: jaccard_similarity_commute)
  have fin: "finite A" "finite B" by (simp_all add: A_def B_def)
  have "0 \<le> r" "r \<le> 1"
    using card_ratio_bounds [OF fin] by (simp_all add: r_def)
  moreover have "r = (if A = {} \<and> B = {} then 1
             else if (A = {}) \<noteq> (B = {}) then 0
             else real (card (A \<inter> B)) / real (card (A \<union> B)))"
    by (auto simp: r_def)
  ultimately show ?thesis
    using ab ba unfolding A_def B_def Let_def by blast
qed

theorem jaccard_similarity_spec_witness:
  "jaccard_similarity ''x'' '''' = Inr 0 \<and> jaccard_similarity '''' ''x'' = Inr 0"
proof -
  have x: "split (lower ''x'') = [''x'']" by code_simp
  have e: "split (lower '''') = []" by code_simp
  show ?thesis
    using jaccard_similarity_spec [of "''x''" "''''"] by (auto simp: x e)
qed






section \<open>Properties of the main loop\<close>

lemma main_iter_read_failed:
  "\<not> read_ok env \<Longrightarrow>
     main_iter config st env =
       (st, [Print ''Warning: failed to read frame from camera''], Next)"
  by (simp add: main_iter_def)

lemma sample_effects: "Ocr \<in> set (fst (snd (sample config st env)))"
  by (simp add: sample_def Let_def split: sum.split bool.split)

lemma sample_last_ocr: "last_ocr (fst (sample config st env)) = time_now env"
  by (simp add: sample_def Let_def split: sum.split bool.split)

lemma main_iter_sampled:
  assumes "read_ok env" "should_sample (time_now env) (last_ocr st) (ocr_interval config)"
  shows "Ocr \<in> set (fst (snd (main_iter config st env)))"
    and "last_ocr (fst (main_iter config st env)) = time_now env"
proof -
  obtain st1 out err where s: "sample config st env = (st1, out, err)"
    by (cases "sample config st env") auto
  from sample_effects [of config st env] s have "Ocr \<in> set out" by simp
  moreover from sample_last_ocr [of config st env] s have "last_ocr st1 = time_now env" by simp
  ultimately show "Ocr \<in> set (fst (snd (main_iter config st env)))"
    and "last_ocr (fst (main_iter config st env)) = time_now env"
    using assms s by (auto simp: main_iter_def split: option.split)
qed

lemma main_iter_not_sampled:
  assumes "read_ok env" "\<not> should_sample (time_now env) (last_ocr st) (ocr_interval config)"
  shows "main_iter config st env =
           (st, [Imshow, WaitKey], if wait_key env AND 255 = 113 then Quit else Next)"
  using assms by (simp add: main_iter_def)

lemma main_loop_read_failed:
  "\<forall>e\<in>set envs. \<not> read_ok e \<Longrightarrow>
     main_loop config st envs =
       (st, replicate (length envs) (Print ''Warning: failed to read frame from camera''), Next)"
  by (induction envs) (simp_all add: main_iter_read_failed)

lemma main_loop_append_failed:
  "\<forall>e\<in>set fails. \<not> read_ok e \<Longrightarrow>
     main_loop config st (fails @ envs) =
       (case main_loop config st envs of
          (st2, out2, c) \<Rightarrow>
            (st2, replicate (length fails) (Print ''Warning: failed to read frame from camera'') @ out2, c))"
  by (induction fails) (simp_all add: main_iter_read_failed split: prod.split)

lemma main_loop_single: "main_loop config st [env] = main_iter config st env"
proof -
  obtain st1 out c where it: "main_iter config st env = (st1, out, c)"
    by (cases "main_iter config st env") auto
  then show ?thesis by (cases c) simp_all
qed


section \<open>The main loop: the claims\<close>

text \<open>
  C6: an iteration whose frame read fails leaves \<open>last_text\<close> and \<open>last_ocr\<close> (the whole
  state of the loop) as they were, and the loop goes on to the next iteration.
\<close>

theorem read_failure_keeps_state:
  "\<not> read_ok env \<Longrightarrow>
     last_text (fst (main_iter config st env)) = last_text st \<and>
     last_ocr (fst (main_iter config st env)) = last_ocr st \<and>
     fst (main_iter config st env) = st \<and>
     snd (snd (main_iter config st env)) = Next"
  by (simp add: main_iter_read_failed)

theorem read_failure_keeps_state_witness:
  "\<not> read_ok \<lparr>read_ok = False, time_now = 100, image_to_string = ''New text'', wait_key = 113\<rparr> \<and>
   fst (main_iter default_config (main_init\<lparr>last_text := ''Hello World'', last_ocr := 98\<rparr>)
          \<lparr>read_ok = False, time_now = 100, image_to_string = ''New text'', wait_key = 113\<rparr>)
     = main_init\<lparr>last_text := ''Hello World'', last_ocr := 98\<rparr>"
  using read_failure_keeps_state
          [of "\<lparr>read_ok = False, time_now = 100, image_to_string = ''New text'', wait_key = 113\<rparr>"
              default_config "main_init\<lparr>last_text := ''Hello World'', last_ocr := 98\<rparr>"]
  by simp

text \<open>
  C8: the sampling gate is the predicate \<open>now - last_sample >= interval\<close>; it is false at
  now 10.0, last 9.0, interval 1.2 and true at now 10.3, last 9.0, interval 1.2; and an
  iteration that has read its frame calls the OCR exactly when the gate holds of the
  current time, \<open>last_ocr\<close> and \<open>ocr_interval\<close>.
\<close>

theorem sampling_gate_spec:
  "(should_sample now last_sample interval \<longleftrightarrow> now - last_sample \<ge> interval) \<and>
   \<not> should_sample 10.0 9.0 1.2 \<and> should_sample 10.3 9.0 1.2 \<and>
   (read_ok env \<longrightarrow>
      (Ocr \<in> set (fst (snd (main_iter config st env)))
         \<longleftrightarrow> time_now env - last_ocr st \<ge> ocr_interval config))"
proof -
  have "read_ok env \<longrightarrow>
      (Ocr \<in> set (fst (snd (main_iter config st env)))
         \<longleftrightarrow> time_now env - last_ocr st \<ge> ocr_interval config)"
  proof (cases "should_sample (time_now env) (last_ocr st) (ocr_interval config)")
    case True
    then show ?thesis using main_iter_sampled(1) [of env st config]
      by (simp add: should_sample_def)
  next
    case False
    then show ?thesis using main_iter_not_sampled [of env st config]
      by (auto simp: should_sample_def)
  qed
  then show ?thesis by (simp add: should_sample_def)
qed

theorem sampling_gate_spec_witness:
  "read_ok \<lparr>read_ok = True, time_now = 10.3, image_to_string = ''Hello World'', wait_key = -1\<rparr> \<and>
   time_now \<lparr>read_ok = True, time_now = 10.3, image_to_string = ''Hello World'', wait_key = -1\<rparr>
     - last_ocr (main_init\<lparr>last_ocr := 9\<rparr>) \<ge> ocr_interval default_config \<and>
   Ocr \<in> set (fst (snd (main_iter default_config (main_init\<lparr>last_ocr := 9\<rparr>)
     \<lparr>read_ok = True, time_now = 10.3, image_to_string = ''Hello World'', wait_key = -1\<rparr>)))"
  using sampling_gate_spec
          [of 0 0 0
              "\<lparr>read_ok = True, time_now = 10.3, image_to_string = ''Hello World'', wait_key = -1\<rparr>"
              default_config "main_init\<lparr>last_ocr := 9\<rparr>"]
  by (simp add: default_config_def)

text \<open>
  C9: the clock starts at 0.0, so the first iteration that reads its frame, whatever
  number of failed reads came before it, passes the gate as soon as the current time is
  at least the interval: it calls the OCR and sets \<open>last_ocr\<close> to the current time.
\<close>

theorem first_frame_sampled:
  assumes "\<forall>e\<in>set fails. \<not> read_ok e" and "read_ok env"
    and "ocr_interval config \<le> time_now env"
  shows "Ocr \<in> set (fst (snd (main_loop config main_init (fails @ [env])))) \<and>
         last_ocr (fst (main_loop config main_init (fails @ [env]))) = time_now env"
proof -
  have g: "should_sample (time_now env) (last_ocr main_init) (ocr_interval config)"
    using assms(3) by (simp add: should_sample_def main_init_def)
  obtain st1 out c where it: "main_iter config main_init env = (st1, out, c)"
    by (cases "main_iter config main_init env") auto
  from main_iter_sampled [OF assms(2) g] it
  have "Ocr \<in> set out" "last_ocr st1 = time_now env" by simp_all
  moreover have "main_loop config main_init [env] = (st1, out, c)"
    using it by (simp only: main_loop_single)
  ultimately show ?thesis
    by (simp add: main_loop_append_failed [OF assms(1)] del: main_loop.simps)
qed

theorem first_frame_sampled_witness:
  "\<not> read_ok \<lparr>read_ok = False, time_now = 1700000000, image_to_string = [], wait_key = -1\<rparr> \<and>
   read_ok \<lparr>read_ok = True, time_now = 1700000001, image_to_string = ''Hi'', wait_key = -1\<rparr> \<and>
   ocr_interval default_config
     \<le> time_now \<lparr>read_ok = True, time_now = 1700000001, image_to_string = ''Hi'', wait_key = -1\<rparr> \<and>
   Ocr \<in> set (fst (snd (main_loop default_config main_init
     [\<lparr>read_ok = False, time_now = 1700000000, image_to_string = [], wait_key = -1\<rparr>,
      \<lparr>read_ok = True, time_now = 1700000001, image_to_string = ''Hi'', wait_key = -1\<rparr>]))) \<and>
   last_ocr (fst (main_loop default_config main_init
     [\<lparr>read_ok = False, time_now = 1700000000, image_to_string = [], wait_key = -1\<rparr>,
      \<lparr>read_ok = True, time_now = 1700000001, image_to_string = ''Hi'', wait_key = -1\<rparr>]))
     = 1700000001"
proof -
  let ?f = "\<lparr>read_ok = False, time_now = 1700000000, image_to_string = [], wait_key = -1\<rparr>"
  let ?e = "\<lparr>read_ok = True, time_now = 1700000001, image_to_string = ''Hi'', wait_key = -1\<rparr>"
  have h1: "\<forall>e\<in>set [?f]. \<not> read_ok e" by simp
  have h2: "read_ok ?e" by simp
  have h3: "ocr_interval default_config \<le> time_now ?e" by (simp add: default_config_def)
  from first_frame_sampled [OF h1 h2 h3] h3 show ?thesis by simp
qed

text \<open>
  C10: an iteration whose frame read fails does not poll the quit key, so while the
  reads fail the loop never leaves through the quit key, whatever key is pressed: after
  any number of failed reads the loop is still running, has polled no key, and its state
  is the one it started from.
\<close>

theorem read_failure_skips_quit_poll:
  "\<forall>e\<in>set envs. \<not> read_ok e \<Longrightarrow>
     fst (main_loop config st envs) = st \<and>
     WaitKey \<notin> set (fst (snd (main_loop config st envs))) \<and>
     snd (snd (main_loop config st envs)) = Next"
  by (simp add: main_loop_read_failed)

theorem read_failure_skips_quit_poll_witness:
  "\<not> read_ok \<lparr>read_ok = False, time_now = 5, image_to_string = [], wait_key = 113\<rparr> \<and>
   wait_key \<lparr>read_ok = False, time_now = 5, image_to_string = [], wait_key = 113\<rparr> AND 255 = 113 \<and>
   WaitKey \<notin> set (fst (snd (main_loop default_config main_init
     [\<lparr>read_ok = False, time_now = 5, image_to_string = [], wait_key = 113\<rparr>,
      \<lparr>read_ok = False, time_now = 5, image_to_string = [], wait_key = 113\<rparr>]))) \<and>
   snd (snd (main_loop default_config main_init
     [\<lparr>read_ok = False, time_now = 5, image_to_string = [], wait_key = 113\<rparr>,
      \<lparr>read_ok = False, time_now = 5, image_to_string = [], wait_key = 113\<rparr>])) = Next"
proof -
  let ?f = "\<lparr>read_ok = False, time_now = 5, image_to_string = [], wait_key = 113\<rparr>"
  have h: "\<forall>e\<in>set [?f, ?f]. \<not> read_ok e" by simp
  have k: "wait_key ?f AND 255 = 113" by simp
  from read_failure_skips_quit_poll [OF h, of default_config main_init] k show ?thesis
    by simp
qed


section \<open>Properties of the speaker\<close>

lemma strip_Nil [simp]: "strip [] = []"
  by (simp add: strip_def)

lemma spoken_Nil [simp]: "spoken [] = []"
  by (simp add: spoken_def utterances_def)

lemma spoken_snoc:
  "spoken (c @ [t]) = (if strip t \<noteq> [] then spoken c @ [UtterBegin t, UtterEnd t] else spoken c)"
  by (simp add: spoken_def utterances_def)

lemma spoken_prefix_ex: "\<exists>d. prefix d (c @ q) \<and> spoken c = spoken d"
  by (rule exI [of _ c]) simp

lemma exec_Nil [simp]: "exec sp [] = sp"
  by (simp add: exec_def)

lemma exec_Cons [simp]: "exec sp (a # sched) = exec (step sp a) sched"
  by (simp add: exec_def)

lemma puts_Nil [simp]: "puts [] = []"
  by (simp add: puts_def)

lemma puts_Cons [simp]: "puts (a # sched) = put1 a @ puts sched"
  by (simp add: puts_def)

lemma enqueued_puts: "enqueued sched = filter (\<lambda>t. strip t \<noteq> []) (puts sched)"
  by (induction sched rule: enqueued.induct) simp_all

lemma worker_inv_init: "worker_inv [] TextSpeaker_init"
  by (simp add: worker_inv_def TextSpeaker_init_def)

lemma worker_inv_put:
  "worker_inv hist sp \<Longrightarrow> worker_inv (hist @ [t]) (sp\<lparr>sp_q := sp_q sp @ [t]\<rparr>)"
  by (cases "sp_thread sp") (auto simp: worker_inv_def)

lemma worker_inv_start: "worker_inv hist sp \<Longrightarrow> worker_inv hist (start sp)"
  by (auto simp: worker_inv_def start_def)

lemma worker_inv_close_set: "worker_inv hist sp \<Longrightarrow> worker_inv hist (close_set sp)"
  by (cases "sp_thread sp") (auto simp: worker_inv_def close_set_def)

lemma worker_inv_worker_step: "worker_inv hist sp \<Longrightarrow> worker_inv hist (worker_step sp)"
proof (cases "sp_thread sp")
  case AtGet
  assume "worker_inv hist sp"
  with AtGet show ?thesis
    by (cases "sp_q sp") (auto simp: worker_inv_def worker_step_def)
next
  case (AtStopCheck t)
  assume "worker_inv hist sp"
  with AtStopCheck obtain c where c: "hist = c @ t # sp_q sp" "sp_engine sp = spoken c"
    by (auto simp: worker_inv_def)
  show ?thesis
  proof (cases "sp_stop sp")
    case True
    have "\<exists>d. prefix d hist \<and> sp_engine sp = spoken d"
      using c by (intro exI [of _ c]) simp
    with True AtStopCheck show ?thesis
      by (simp add: worker_inv_def worker_step_def)
  next
    case False
    have "hist = (c @ [t]) @ sp_q sp" using c by simp
    moreover have "strip t = [] \<Longrightarrow> sp_engine sp = spoken (c @ [t])"
      using c by (simp add: spoken_snoc)
    ultimately show ?thesis
      using False AtStopCheck c by (auto simp: worker_inv_def worker_step_def)
  qed
next
  case (InRunAndWait t)
  assume "worker_inv hist sp"
  with InRunAndWait obtain c where c: "hist = c @ t # sp_q sp"
    "sp_engine sp = spoken c @ [UtterBegin t]" "strip t \<noteq> []"
    by (auto simp: worker_inv_def)
  have "hist = (c @ [t]) @ sp_q sp" using c by simp
  moreover have "sp_engine sp @ [UtterEnd t] = spoken (c @ [t])"
    using c by (simp add: spoken_snoc)
  ultimately show ?thesis
    using InRunAndWait by (auto simp: worker_inv_def worker_step_def)
qed (auto simp: worker_inv_def worker_step_def spoken_prefix_ex)

lemma worker_inv_step: "worker_inv hist sp \<Longrightarrow> worker_inv (hist @ put1 a) (step sp a)"
proof (cases a)
  case (Say x)
  assume "worker_inv hist sp"
  then show ?thesis
    using Say worker_inv_put [of hist sp x] by (simp add: say_def)
next
  case ClosePut
  assume "worker_inv hist sp"
  then show ?thesis
    using ClosePut worker_inv_put [of hist sp "[]"] by (simp add: close_put_def)
qed (simp_all add: worker_inv_start worker_inv_close_set worker_inv_worker_step)

lemma worker_inv_exec:
  "worker_inv hist sp \<Longrightarrow> worker_inv (hist @ puts sched) (exec sp sched)"
proof (induction sched arbitrary: hist sp)
  case Nil
  then show ?case by simp
next
  case (Cons a sched)
  from Cons.IH [OF worker_inv_step [OF Cons.prems, of a]] show ?case by simp
qed

lemma worker_inv_log:
  assumes "worker_inv hist sp"
  shows "\<exists>c. prefix c hist \<and>
           (sp_engine sp = spoken c \<or>
            (\<exists>t. strip t \<noteq> [] \<and> prefix (c @ [t]) hist \<and> sp_engine sp = spoken c @ [UtterBegin t]))"
proof (cases "sp_thread sp")
  case (InRunAndWait t)
  with assms obtain c where "hist = c @ t # sp_q sp"
    "sp_engine sp = spoken c @ [UtterBegin t]" "strip t \<noteq> []"
    by (auto simp: worker_inv_def)
  then have "prefix c hist \<and> strip t \<noteq> [] \<and> prefix (c @ [t]) hist \<and>
      sp_engine sp = spoken c @ [UtterBegin t]"
    by (simp add: prefix_def)
  then show ?thesis by blast
qed (use assms in \<open>auto simp: worker_inv_def prefix_def\<close>)

lemma finished_step:
  "sp_thread sp = Finished \<Longrightarrow>
     sp_thread (step sp a) = Finished \<and> sp_engine (step sp a) = sp_engine sp"
  by (cases a) (simp_all add: start_def say_def close_set_def close_put_def worker_step_def)

lemma finished_exec:
  "sp_thread sp = Finished \<Longrightarrow>
     sp_thread (exec sp sched) = Finished \<and> sp_engine (exec sp sched) = sp_engine sp"
proof (induction sched arbitrary: sp)
  case Nil
  then show ?case by simp
next
  case (Cons a sched)
  from finished_step [OF Cons.prems, of a] Cons.IH [of "step sp a"] show ?case by simp
qed


lemma engine_log_ordered:
  "\<exists>ts. prefix ts (enqueued sched) \<and>
      (sp_engine (exec TextSpeaker_init sched) = utterances ts \<or>
       (\<exists>t. prefix (ts @ [t]) (enqueued sched) \<and>
            sp_engine (exec TextSpeaker_init sched) = utterances ts @ [UtterBegin t]))"
proof -
  let ?nb = "\<lambda>t. strip t \<noteq> []"
  let ?sp = "exec TextSpeaker_init sched"
  have "worker_inv (puts sched) ?sp"
    using worker_inv_exec [OF worker_inv_init, of sched] by simp
  from worker_inv_log [OF this] obtain c where c: "prefix c (puts sched)"
    and log: "sp_engine ?sp = spoken c \<or>
            (\<exists>t. strip t \<noteq> [] \<and> prefix (c @ [t]) (puts sched) \<and> sp_engine ?sp = spoken c @ [UtterBegin t])"
    by blast
  have p: "prefix (filter ?nb c) (enqueued sched)"
    using c by (simp add: enqueued_puts filter_mono_prefix)
  from log show ?thesis
  proof
    assume "sp_engine ?sp = spoken c"
    with p show ?thesis unfolding spoken_def by blast
  next
    assume "\<exists>t. strip t \<noteq> [] \<and> prefix (c @ [t]) (puts sched) \<and> sp_engine ?sp = spoken c @ [UtterBegin t]"
    then obtain t where t: "strip t \<noteq> []" "prefix (c @ [t]) (puts sched)"
      "sp_engine ?sp = spoken c @ [UtterBegin t]" by blast
    from t(2) have "prefix (filter ?nb (c @ [t])) (enqueued sched)"
      unfolding enqueued_puts by (rule filter_mono_prefix)
    with t(1) have "prefix (filter ?nb c @ [t]) (enqueued sched)" by simp
    with p t(3) show ?thesis unfolding spoken_def by blast
  qed
qed

lemma running_worker_step: "running sp \<Longrightarrow> running (worker_step sp)"
  by (cases "sp_thread sp"; cases "sp_q sp") (auto simp: running_def worker_step_def)

lemma steps_left_worker_step:
  "running sp \<Longrightarrow> steps_left sp \<noteq> 0 \<Longrightarrow> steps_left (worker_step sp) < steps_left sp"
  by (cases "sp_thread sp"; cases "sp_q sp")
     (auto simp: running_def worker_step_def steps_left_def)

lemma steps_left_zero:
  "running sp \<Longrightarrow> steps_left sp = 0 \<Longrightarrow> sp_thread sp = AtGet \<and> sp_q sp = []"
  by (cases "sp_thread sp") (auto simp: running_def steps_left_def)

lemma idle_worker_step: "sp_thread sp = AtGet \<Longrightarrow> sp_q sp = [] \<Longrightarrow> worker_step sp = sp"
  by (simp add: worker_step_def)

lemma exec_append: "exec sp (xs @ ys) = exec (exec sp xs) ys"
  by (simp add: exec_def)

lemma exec_replicate_Worker_Suc:
  "exec sp (replicate (Suc n) Worker) = exec (worker_step sp) (replicate n Worker)"
  by simp

lemma idle_exec:
  "sp_thread sp = AtGet \<Longrightarrow> sp_q sp = [] \<Longrightarrow> exec sp (replicate n Worker) = sp"
  by (induction n) (simp_all add: idle_worker_step)

lemma drain:
  "running sp \<Longrightarrow> worker_inv hist sp \<Longrightarrow> steps_left sp \<le> n \<Longrightarrow>
     sp_engine (exec sp (replicate n Worker)) = spoken hist"
proof (induction n arbitrary: sp)
  case 0
  then have idle: "sp_thread sp = AtGet" "sp_q sp = []"
    using steps_left_zero [of sp] by simp_all
  with "0.prems"(2) show ?case by (auto simp: worker_inv_def)
next
  case (Suc n)
  show ?case
  proof (cases "steps_left sp = 0")
    case True
    with Suc.prems(1) have idle: "sp_thread sp = AtGet" "sp_q sp = []"
      using steps_left_zero [of sp] by simp_all
    then have "exec sp (replicate (Suc n) Worker) = sp" by (rule idle_exec)
    moreover from idle Suc.prems(2) have "sp_engine sp = spoken hist"
      by (auto simp: worker_inv_def)
    ultimately show ?thesis by simp
  next
    case False
    with Suc.prems have "steps_left (worker_step sp) \<le> n"
      using steps_left_worker_step [of sp] by simp
    with Suc.IH [OF running_worker_step worker_inv_worker_step] Suc.prems
    show ?thesis by simp
  qed
qed

lemma steps_left_bound:
  "running sp \<Longrightarrow> worker_inv hist sp \<Longrightarrow> steps_left sp \<le> 5 * length hist + 1"
  by (cases "sp_thread sp") (auto simp: running_def worker_inv_def steps_left_def)

lemma length_puts: "length (puts sched) \<le> length sched"
proof (induction sched)
  case Nil
  then show ?case by simp
next
  case (Cons a sched)
  have "length (put1 a) \<le> 1" by (cases a) simp_all
  with Cons show ?case by simp
qed

lemma step_keeps_running_flags:
  "a \<noteq> CloseSet \<Longrightarrow> \<not> sp_stop sp \<and> sp_thread sp \<noteq> Finished \<Longrightarrow>
     \<not> sp_stop (step sp a) \<and> sp_thread (step sp a) \<noteq> Finished"
  by (cases a; cases "sp_thread sp"; cases "sp_q sp")
     (auto simp: start_def say_def close_put_def worker_step_def)

lemma exec_keeps_running_flags:
  "CloseSet \<notin> set sched \<Longrightarrow> \<not> sp_stop sp \<and> sp_thread sp \<noteq> Finished \<Longrightarrow>
     \<not> sp_stop (exec sp sched) \<and> sp_thread (exec sp sched) \<noteq> Finished"
proof (induction sched arbitrary: sp)
  case Nil
  then show ?case by simp
next
  case (Cons a sched)
  from Cons.prems have "a \<noteq> CloseSet" "CloseSet \<notin> set sched" by auto
  from Cons.IH [OF this(2) step_keeps_running_flags [OF this(1) Cons.prems(2)]]
  show ?case by simp
qed

lemma step_keeps_started:
  "sp_thread sp \<noteq> NotStarted \<Longrightarrow> sp_thread (step sp a) \<noteq> NotStarted"
  by (cases a; cases "sp_thread sp"; cases "sp_q sp")
     (auto simp: start_def say_def close_set_def close_put_def worker_step_def)

lemma exec_keeps_started:
  "sp_thread sp \<noteq> NotStarted \<Longrightarrow> sp_thread (exec sp sched) \<noteq> NotStarted"
  by (induction sched arbitrary: sp) (simp_all add: step_keeps_started)

lemma exec_started:
  "Start \<in> set sched \<Longrightarrow> sp_thread (exec sp sched) \<noteq> NotStarted"
proof (induction sched arbitrary: sp)
  case Nil
  then show ?case by simp
next
  case (Cons a sched)
  show ?case
  proof (cases "a = Start")
    case True
    have "sp_thread (start sp) \<noteq> NotStarted" by (simp add: start_def)
    with True show ?thesis by (simp add: exec_keeps_started)
  next
    case False
    with Cons show ?thesis by simp
  qed
qed

lemma all_spoken:
  assumes "Start \<in> set sched" and "CloseSet \<notin> set sched" and "5 * length sched + 1 \<le> n"
  shows "sp_engine (exec TextSpeaker_init (sched @ replicate n Worker))
           = utterances (enqueued sched)"
proof -
  let ?sp = "exec TextSpeaker_init sched"
  have inv: "worker_inv (puts sched) ?sp"
    using worker_inv_exec [OF worker_inv_init, of sched] by simp
  have "\<not> sp_stop TextSpeaker_init \<and> sp_thread TextSpeaker_init \<noteq> Finished"
    by (simp add: TextSpeaker_init_def)
  from exec_keeps_running_flags [OF assms(2) this] exec_started [OF assms(1)]
  have run: "running ?sp" by (simp add: running_def)
  have "steps_left ?sp \<le> 5 * length (puts sched) + 1"
    by (rule steps_left_bound [OF run inv])
  also have "\<dots> \<le> 5 * length sched + 1" using length_puts [of sched] by simp
  finally have "steps_left ?sp \<le> n" using assms(3) by simp
  from drain [OF run inv this] show ?thesis
    by (simp add: exec_append spoken_def enqueued_puts)
qed

section \<open>The speaker: the claims\<close>

text \<open>
  C2: a step in which the worker reads the stop flag and finds it set, at the head of
  its loop or right after a \<open>get\<close>, ends the worker without a call of the engine, and
  from then on no schedule makes the engine say anything: this holds whatever payload
  the worker has just dequeued and whatever is left in the queue.
\<close>

theorem stop_observed_no_further_speech:
  assumes "sp_stop sp" and "sp_thread sp = AtWhile \<or> sp_thread sp = AtStopCheck text"
  shows "sp_thread (worker_step sp) = Finished \<and>
         sp_engine (worker_step sp) = sp_engine sp \<and>
         sp_thread (exec (worker_step sp) sched) = Finished \<and>
         sp_engine (exec (worker_step sp) sched) = sp_engine sp"
proof -
  from assms have f: "sp_thread (worker_step sp) = Finished"
    and e: "sp_engine (worker_step sp) = sp_engine sp"
    by (auto simp: worker_step_def)
  from finished_exec [OF f, of sched] f e show ?thesis by simp
qed

theorem stop_observed_no_further_speech_witness:
  "sp_stop (exec TextSpeaker_init [Start, Say ''hello'', Say ''later'', Worker, Worker, CloseSet]) \<and>
   sp_thread (exec TextSpeaker_init [Start, Say ''hello'', Say ''later'', Worker, Worker, CloseSet])
     = AtStopCheck ''hello'' \<and>
   sp_q (exec TextSpeaker_init [Start, Say ''hello'', Say ''later'', Worker, Worker, CloseSet])
     = [''later''] \<and>
   sp_thread (exec (worker_step
       (exec TextSpeaker_init [Start, Say ''hello'', Say ''later'', Worker, Worker, CloseSet]))
       [ClosePut, Worker, Say ''more'', Worker, Worker]) = Finished \<and>
   sp_engine (exec (worker_step
       (exec TextSpeaker_init [Start, Say ''hello'', Say ''later'', Worker, Worker, CloseSet]))
       [ClosePut, Worker, Say ''more'', Worker, Worker]) = []"
proof -
  let ?sp = "exec TextSpeaker_init [Start, Say ''hello'', Say ''later'', Worker, Worker, CloseSet]"
  have s1: "strip ''hello'' = ''hello''" by code_simp
  have s2: "strip ''later'' = ''later''" by code_simp
  have sp: "?sp = \<lparr>sp_engine = [], sp_q = [''later''], sp_stop = True,
                   sp_thread = AtStopCheck ''hello''\<rparr>"
    by (simp add: TextSpeaker_init_def start_def say_def worker_step_def close_set_def s1 s2)
  have h1: "sp_stop ?sp" unfolding sp by simp
  have h2: "sp_thread ?sp = AtWhile \<or> sp_thread ?sp = AtStopCheck ''hello''"
    unfolding sp by simp
  from stop_observed_no_further_speech
         [OF h1 h2, of "[ClosePut, Worker, Say ''more'', Worker, Worker]"]
  show ?thesis unfolding sp by simp
qed

text \<open>
  C4: the engine speaks the enqueued payloads in the order of their enqueuing, one at
  a time. In every execution the engine's log is made of whole utterances, each begun
  and ended before the next begins, with at most one utterance still going on at the
  end, and the payloads in the log are an initial part of the payloads enqueued. And
  the payloads are spoken: when the thread has been started and \<open>close\<close> has not been
  called, the worker, given five steps for each step of the schedule and one more, has
  spoken every enqueued payload to its end, in the order of the enqueuing.
\<close>

theorem speech_in_enqueue_order:
  "(\<exists>ts. prefix ts (enqueued sched) \<and>
      (sp_engine (exec TextSpeaker_init sched) = utterances ts \<or>
       (\<exists>t. prefix (ts @ [t]) (enqueued sched) \<and>
            sp_engine (exec TextSpeaker_init sched) = utterances ts @ [UtterBegin t]))) \<and>
   (Start \<in> set sched \<and> CloseSet \<notin> set sched \<longrightarrow>
      (\<forall>n \<ge> 5 * length sched + 1.
         sp_engine (exec TextSpeaker_init (sched @ replicate n Worker))
           = utterances (enqueued sched)))"
  using engine_log_ordered [of sched] all_spoken [of sched] by blast

theorem speech_in_enqueue_order_witness:
  "Start \<in> set [Say ''a'', Start, Worker, Worker, Say ''b'', Worker] \<and>
   CloseSet \<notin> set [Say ''a'', Start, Worker, Worker, Say ''b'', Worker] \<and>
   enqueued [Say ''a'', Start, Worker, Worker, Say ''b'', Worker] = [''a'', ''b''] \<and>
   sp_engine (exec TextSpeaker_init [Say ''a'', Start, Worker, Worker, Say ''b'', Worker])
     = [] \<and>
   sp_engine (exec TextSpeaker_init
       ([Say ''a'', Start, Worker, Worker, Say ''b'', Worker] @ replicate 31 Worker))
     = [UtterBegin ''a'', UtterEnd ''a'', UtterBegin ''b'', UtterEnd ''b'']"
proof -
  let ?sched = "[Say ''a'', Start, Worker, Worker, Say ''b'', Worker]"
  have a: "strip ''a'' = ''a''" by code_simp
  have b: "strip ''b'' = ''b''" by code_simp
  have e: "enqueued ?sched = [''a'', ''b'']" by (simp add: a b)
  have h: "Start \<in> set ?sched \<and> CloseSet \<notin> set ?sched" by simp
  have n: "5 * length ?sched + 1 \<le> (31::nat)" by simp
  have l: "sp_engine (exec TextSpeaker_init ?sched) = []"
    by (simp add: TextSpeaker_init_def start_def say_def worker_step_def a b)
  from speech_in_enqueue_order [of ?sched] h n
  have "sp_engine (exec TextSpeaker_init (?sched @ replicate 31 Worker))
          = utterances (enqueued ?sched)" by blast
  then have "sp_engine (exec TextSpeaker_init (?sched @ replicate 31 Worker))
          = [UtterBegin ''a'', UtterEnd ''a'', UtterBegin ''b'', UtterEnd ''b'']"
    unfolding e by (simp add: utterances_def)
  with h e l show ?thesis by blast
qed

section \<open>The model on the examples of the specification\<close>

text \<open>
  The similarity of the example pairs, a normalisation over several kinds of whitespace,
  and the run in which the OCR reads the same text twice and then another one: the
  speaker's queue receives the first and the third detection.
\<close>

lemma similarity_examples:
  "jaccard_similarity ''a b'' ''a b'' = Inr 1"
  "jaccard_similarity ''a b'' ''c d'' = Inr 0"
  "jaccard_similarity ''a b c'' ''a b d'' = Inr (1 / 2)"
  "jaccard_similarity ''Hello  WORLD'' ''hello world'' = Inr 1"
  by code_simp+

lemma normalize_text_example:
  "normalize_text [CHR '' '', CHR ''H'', CHR ''i'', CHR 0x09, CHR 0x0A, CHR ''y'', CHR ''o'', CHR 0xA0]
     = ''Hi yo''"
  by code_simp

lemma scenario:
  "main_loop default_config main_init
     [\<lparr>read_ok = True, time_now = 100, image_to_string = ''Hello  World'', wait_key = -1\<rparr>,
      \<lparr>read_ok = True, time_now = 102, image_to_string = ''Hello World '', wait_key = -1\<rparr>,
      \<lparr>read_ok = True, time_now = 104, image_to_string = ''Goodbye Friend'', wait_key = 113\<rparr>]
   = (\<lparr>last_text = ''Goodbye Friend'', last_ocr = 104,
        speaker = \<lparr>sp_engine = [], sp_q = [''Hello World'', ''Goodbye Friend''],
                    sp_stop = False, sp_thread = AtWhile\<rparr>\<rparr>,
      [Imshow, Ocr, Print ''Detected: Hello World'', WaitKey,
       Imshow, Ocr, WaitKey,
       Imshow, Ocr, Print ''Detected: Goodbye Friend'', WaitKey],
      Quit)"
  by code_simp

end
